theory Spec2Isabelle
  imports Complex_Main
begin

section \<open>Customer segmentation: backend\_ai.c\<close>

text \<open>
  The C module works on \<^verbatim>\<open>float\<close> values. They are modelled as real numbers:
  every arithmetic operation is the exact one, so rounding, overflow to infinity and
  NaN do not occur in the model. The C \<^verbatim>\<open>int\<close> inputs are only compared and converted,
  never added or multiplied, and are modelled as \<^typ>\<open>int\<close>.

  The static array \<^verbatim>\<open>centroids[NUM_CLUSTERS][2]\<close> is module state that survives calls.
  It is passed to every function that reads it and returned by every function that
  writes it.
\<close>

abbreviation (input) NUM_CLUSTERS :: nat where "NUM_CLUSTERS \<equiv> 4"
abbreviation (input) MAX_ITERATIONS_ai :: nat where "MAX_ITERATIONS_ai \<equiv> 50"
abbreviation (input) CONVERGENCE_THRESHOLD :: real where "CONVERGENCE_THRESHOLD \<equiv> 1 / 100"

type_synonym centroid_state = "(real \<times> real) list"

definition initial_centroids :: centroid_state where
  "initial_centroids = [(30, 30), (150, 30), (30, 500), (500, 1000)]"

definition cluster_names :: "string list" where
  "cluster_names = [''Bronze'', ''Silver'', ''Gold'', ''Titanium'']"

definition euclidean_distance :: "real \<Rightarrow> real \<Rightarrow> real \<Rightarrow> real \<Rightarrow> real" where
  "euclidean_distance x1 y1 x2 y2 =
     (let dx = x1 - x2; dy = y1 - y2 in sqrt (dx * dx + dy * dy))"

definition calculate_churn_risk :: "int \<Rightarrow> real" where
  "calculate_churn_risk wallet_balance =
     (if wallet_balance < 50 then 85
      else if wallet_balance < 200 then 55
      else if wallet_balance < 500 then 25
      else 5)"

subsection \<open>Assignment step\<close>

text \<open>
  The inner loop of \<^verbatim>\<open>assign_clusters\<close>: \<^verbatim>\<open>for (k = 1; k < NUM_CLUSTERS; k++)\<close>, carrying
  \<^verbatim>\<open>best_cluster\<close> and \<^verbatim>\<open>min_distance\<close>.
\<close>

function nearest_scan ::
  "centroid_state \<Rightarrow> real \<Rightarrow> real \<Rightarrow> nat \<Rightarrow> nat \<Rightarrow> real \<Rightarrow> nat \<times> real" where
  "nearest_scan cs x y k best_cluster min_distance =
     (if k < NUM_CLUSTERS then
        (let distance = euclidean_distance x y (fst (cs ! k)) (snd (cs ! k)) in
         if distance < min_distance
         then nearest_scan cs x y (k + 1) k distance
         else nearest_scan cs x y (k + 1) best_cluster min_distance)
      else (best_cluster, min_distance))"
  by pat_completeness auto
termination
  by (relation "measure (\<lambda>(cs, x, y, k, b, m). NUM_CLUSTERS - k)") auto

declare nearest_scan.simps [simp del]

definition nearest_centroid :: "centroid_state \<Rightarrow> real \<Rightarrow> real \<Rightarrow> nat" where
  "nearest_centroid cs x y =
     fst (nearest_scan cs x y 1 0
            (euclidean_distance x y (fst (cs ! 0)) (snd (cs ! 0))))"

text \<open>
  The outer loop \<^verbatim>\<open>for (i = 0; i < count; i++)\<close>. The result is the \<^verbatim>\<open>changed\<close> flag and
  the updated \<^verbatim>\<open>assignments\<close> array.
\<close>

function assign_loop ::
  "nat \<Rightarrow> int list \<Rightarrow> int list \<Rightarrow> centroid_state \<Rightarrow> nat \<Rightarrow> nat list \<Rightarrow> bool
     \<Rightarrow> bool \<times> nat list" where
  "assign_loop count points wallets cs i assignments changed =
     (if i < count then
        (let x = real_of_int (points ! i);
             y = real_of_int (wallets ! i);
             best_cluster = nearest_centroid cs x y in
         if assignments ! i \<noteq> best_cluster
         then assign_loop count points wallets cs (i + 1)
                (assignments[i := best_cluster]) True
         else assign_loop count points wallets cs (i + 1) assignments changed)
      else (changed, assignments))"
  by pat_completeness auto
termination
  by (relation "measure (\<lambda>(count, p, w, cs, i, a, c). count - i)") auto

declare assign_loop.simps [simp del]

definition assign_clusters ::
  "nat \<Rightarrow> int list \<Rightarrow> int list \<Rightarrow> centroid_state \<Rightarrow> nat list \<Rightarrow> bool \<times> nat list" where
  "assign_clusters count points wallets cs assignments =
     assign_loop count points wallets cs 0 assignments False"

subsection \<open>Update step\<close>

text \<open>
  First loop of \<^verbatim>\<open>update_centroids\<close>: the per-cluster coordinate sums
  \<^verbatim>\<open>new_centroids\<close> and the member counts \<^verbatim>\<open>cluster_counts\<close>.
\<close>

function accumulate ::
  "nat \<Rightarrow> int list \<Rightarrow> int list \<Rightarrow> nat list \<Rightarrow> nat \<Rightarrow> (real \<times> real) list \<Rightarrow> nat list
     \<Rightarrow> (real \<times> real) list \<times> nat list" where
  "accumulate count points wallets assignments i new_centroids cluster_counts =
     (if i < count then
        (let cluster = assignments ! i in
         accumulate count points wallets assignments (i + 1)
           (new_centroids[cluster :=
              (fst (new_centroids ! cluster) + real_of_int (points ! i),
               snd (new_centroids ! cluster) + real_of_int (wallets ! i))])
           (cluster_counts[cluster := cluster_counts ! cluster + 1]))
      else (new_centroids, cluster_counts))"
  by pat_completeness auto
termination
  by (relation "measure (\<lambda>(count, p, w, a, i, n, c). count - i)") auto

declare accumulate.simps [simp del]

text \<open>
  Second loop: \<^verbatim>\<open>for (k = 0; k < NUM_CLUSTERS; k++)\<close>, writing \<^verbatim>\<open>centroids[k]\<close> in place
  and tracking \<^verbatim>\<open>max_movement\<close>.
\<close>

function move_loop ::
  "(real \<times> real) list \<Rightarrow> nat list \<Rightarrow> nat \<Rightarrow> centroid_state \<Rightarrow> real
     \<Rightarrow> real \<times> centroid_state" where
  "move_loop new_centroids cluster_counts k cs max_movement =
     (if k < NUM_CLUSTERS then
        (if cluster_counts ! k > 0 then
           (let new_x = fst (new_centroids ! k) / real (cluster_counts ! k);
                new_y = snd (new_centroids ! k) / real (cluster_counts ! k);
                updated_x = 7 / 10 * new_x + 3 / 10 * fst (cs ! k);
                updated_y = 7 / 10 * new_y + 3 / 10 * snd (cs ! k);
                movement = euclidean_distance (fst (cs ! k)) (snd (cs ! k))
                             updated_x updated_y in
            move_loop new_centroids cluster_counts (k + 1)
              (cs[k := (updated_x, updated_y)])
              (if movement > max_movement then movement else max_movement))
         else move_loop new_centroids cluster_counts (k + 1) cs max_movement)
      else (max_movement, cs))"
  by pat_completeness auto
termination
  by (relation "measure (\<lambda>(n, c, k, cs, m). NUM_CLUSTERS - k)") auto

declare move_loop.simps [simp del]

definition update_centroids ::
  "nat \<Rightarrow> int list \<Rightarrow> int list \<Rightarrow> nat list \<Rightarrow> centroid_state \<Rightarrow> real \<times> centroid_state" where
  "update_centroids count points wallets assignments cs =
     (case accumulate count points wallets assignments 0
             (replicate NUM_CLUSTERS (0, 0)) (replicate NUM_CLUSTERS 0) of
        (new_centroids, cluster_counts) \<Rightarrow>
          move_loop new_centroids cluster_counts 0 cs 0)"

subsection \<open>The k-means loop\<close>

text \<open>
  \<^verbatim>\<open>while (iteration < MAX_ITERATIONS && !converged)\<close> of \<^verbatim>\<open>perform_clustering\<close>. The result
  is the centroid state and the assignments when the loop stops.
\<close>

function kmeans_loop ::
  "nat \<Rightarrow> int list \<Rightarrow> int list \<Rightarrow> nat \<Rightarrow> bool \<Rightarrow> centroid_state \<Rightarrow> nat list
     \<Rightarrow> centroid_state \<times> nat list" where
  "kmeans_loop count points wallets iteration converged cs assignments =
     (if iteration < MAX_ITERATIONS_ai \<and> \<not> converged then
        (case assign_clusters count points wallets cs assignments of
           (changed, assignments') \<Rightarrow>
             (case update_centroids count points wallets assignments' cs of
                (movement, cs') \<Rightarrow>
                  kmeans_loop count points wallets (iteration + 1)
                    (\<not> changed \<or> movement < CONVERGENCE_THRESHOLD) cs' assignments'))
      else (cs, assignments))"
  by pat_completeness auto
termination
  by (relation "measure (\<lambda>(count, p, w, iteration, c, cs, a). MAX_ITERATIONS_ai - iteration)")
     auto

declare kmeans_loop.simps [simp del]

subsection \<open>Serialisation\<close>

text \<open>
  \<^verbatim>\<open>snprintf\<close> with \<^verbatim>\<open>%d\<close> prints a decimal numeral; with \<^verbatim>\<open>%.1f\<close> it prints one
  decimal place.
\<close>

definition digit_char :: "nat \<Rightarrow> char" where
  "digit_char d = ''0123456789'' ! d"

function decimal :: "nat \<Rightarrow> string" where
  "decimal n =
     (if n div 10 = 0 then [digit_char n]
      else decimal (n div 10) @ [digit_char (n mod 10)])"
  by pat_completeness auto
termination
  by (relation "measure (\<lambda>n. n)") auto

declare decimal.simps [simp del]

definition string_of_int :: "int \<Rightarrow> string" where
  "string_of_int i = (if i < 0 then ''-'' @ decimal (nat (- i)) else decimal (nat i))"

definition string_of_fixed1 :: "real \<Rightarrow> string" where
  "string_of_fixed1 r =
     (let t = nat (round (\<bar>r\<bar> * 10)) in
      (if r < 0 then ''-'' else '''') @ decimal (t div 10) @ ''.'' @ decimal (t mod 10))"

definition format_record :: "int \<Rightarrow> int \<Rightarrow> string \<Rightarrow> real \<Rightarrow> string" where
  \<open>format_record x y name churn =
     ''{"x":'' @ string_of_int x @ '',"y":'' @ string_of_int y @
     '',"cluster":"'' @ name @ ''","churn":'' @ string_of_fixed1 churn @ ''}''\<close>

text \<open>
  The record loop \<^verbatim>\<open>for (i = 0; i < count && offset < buffer_size - 150; i++)\<close>. The state
  is \<^verbatim>\<open>offset\<close> and the text in \<^verbatim>\<open>output_buffer[0 .. offset)\<close>. \<^verbatim>\<open>snprintf\<close> returns the
  length of the whole record, also when it had to cut it; the loop then stops
  (\<^verbatim>\<open>break\<close>) and leaves \<^verbatim>\<open>offset\<close> where it was, so that the closing bracket
  overwrites the cut record. With 32-bit values a record has at most 67 characters,
  far below the 150 bytes the loop keeps free, so in C the \<^verbatim>\<open>break\<close> is never taken
  and \<^verbatim>\<open>offset\<close> stays below \<^verbatim>\<open>buffer_size - 1\<close>.
\<close>

function serialize_loop ::
  "nat \<Rightarrow> int list \<Rightarrow> int list \<Rightarrow> nat list \<Rightarrow> int \<Rightarrow> nat \<Rightarrow> int \<Rightarrow> string \<Rightarrow> int \<times> string" where
  "serialize_loop count points wallets assignments buffer_size i offset buf =
     (if i < count \<and> offset < buffer_size - 150 then
        (let cluster = assignments ! i;
             churn = calculate_churn_risk (wallets ! i);
             rec = format_record (points ! i) (wallets ! i) (cluster_names ! cluster) churn;
             written = int (length rec) in
         if written < 0 \<or> written \<ge> buffer_size - offset then (offset, buf)
         else if int i < int count - 1 \<and> offset + written < buffer_size - 2
         then serialize_loop count points wallets assignments buffer_size (i + 1)
                (offset + written + 1) (buf @ rec @ '','')
         else serialize_loop count points wallets assignments buffer_size (i + 1)
                (offset + written) (buf @ rec))
      else (offset, buf))"
  by pat_completeness auto
termination
  by (relation "measure (\<lambda>(count, p, w, a, b, i, off, buf). count - i)") auto

declare serialize_loop.simps [simp del]

text \<open>
  \<^verbatim>\<open>strncpy(output_buffer, "[]", buffer_size - 1); output_buffer[buffer_size - 1] = 0\<close>:
  the C string left in the buffer.
\<close>

definition write_empty_list :: "int \<Rightarrow> string" where
  "write_empty_list buffer_size = take (nat (buffer_size - 1)) ''[]''"

subsection \<open>The exported function\<close>

text \<open>
  \<^verbatim>\<open>perform_clustering\<close>. A null \<^verbatim>\<open>points\<close> or \<^verbatim>\<open>wallets\<close> pointer is \<open>None\<close>;
  \<open>output_buffer\<close> says whether the output pointer is non-null; \<open>alloc_ok\<close> says whether
  \<^verbatim>\<open>calloc\<close> returned memory. The result is the centroid state after the call and the
  C string in the output buffer (\<open>None\<close> when nothing was written).
\<close>

definition perform_clustering ::
  "centroid_state \<Rightarrow> bool \<Rightarrow> int \<Rightarrow> int list option \<Rightarrow> int list option \<Rightarrow> bool \<Rightarrow> int
     \<Rightarrow> centroid_state \<times> string option" where
  "perform_clustering cs alloc_ok count points wallets output_buffer buffer_size =
     (if count \<le> 0 \<or> points = None \<or> wallets = None \<or> \<not> output_buffer \<or> buffer_size < 100
      then (cs, if output_buffer \<and> buffer_size > 0
                then Some (write_empty_list buffer_size) else None)
      else if \<not> alloc_ok then (cs, Some (write_empty_list buffer_size))
      else
        (case kmeans_loop (nat count) (the points) (the wallets) 0 False cs
                (replicate (nat count) 0) of
           (cs', assignments) \<Rightarrow>
             (case serialize_loop (nat count) (the points) (the wallets) assignments
                     buffer_size 0 1 ''['' of
                (offset, buf) \<Rightarrow>
                  (cs', Some (if offset < buffer_size - 1 then buf @ '']'' else buf)))))"

section \<open>Route optimisation: backend\_logistics.c\<close>

text \<open>
  The C \<^verbatim>\<open>double\<close> is modelled as a real number, as above. Array indices and the tour
  entries are natural numbers; the sentinel \<^verbatim>\<open>nearest = -1\<close> is \<open>None\<close>, and
  \<^verbatim>\<open>min_dist = INFINITY\<close> is \<open>None\<close> as well.
\<close>

abbreviation (input) MIN_STOPS :: int where "MIN_STOPS \<equiv> 2"
abbreviation (input) MAX_STOPS :: int where "MAX_STOPS \<equiv> 100"
abbreviation (input) MAX_ITERATIONS_logistics :: nat where "MAX_ITERATIONS_logistics \<equiv> 200"
abbreviation (input) GRID_SIZE :: real where "GRID_SIZE \<equiv> 100"

record DeliveryNode =
  node_id :: int
  node_x :: real
  node_y :: real
  node_type :: string

definition calculate_distance :: "DeliveryNode \<Rightarrow> DeliveryNode \<Rightarrow> real" where
  "calculate_distance a b =
     (let dx = node_x a - node_x b; dy = node_y a - node_y b in sqrt (dx * dx + dy * dy))"

text \<open>The loop \<^verbatim>\<open>for (i = 0; i < count - 1; i++) total += ...\<close>.\<close>

function route_sum :: "DeliveryNode list \<Rightarrow> nat list \<Rightarrow> nat \<Rightarrow> nat \<Rightarrow> real \<Rightarrow> real" where
  "route_sum nodes route count i total_acc =
     (if i < count - 1 then
        route_sum nodes route count (i + 1)
          (total_acc + calculate_distance (nodes ! (route ! i)) (nodes ! (route ! (i + 1))))
      else total_acc)"
  by pat_completeness auto
termination
  by (relation "measure (\<lambda>(nodes, route, count, i, total_acc). count - 1 - i)") auto

declare route_sum.simps [simp del]

definition calculate_route_distance :: "DeliveryNode list \<Rightarrow> nat list \<Rightarrow> nat \<Rightarrow> real" where
  "calculate_route_distance nodes route count =
     (if count < 2 then 0
      else route_sum nodes route count 0 0 +
           calculate_distance (nodes ! (route ! (count - 1))) (nodes ! (route ! 0)))"

subsection \<open>The 2-opt move\<close>

text \<open>
  \<^verbatim>\<open>for (k = a; k < b; k++) new_route[k] = route[k]\<close>: the first and the last loop of
  \<^verbatim>\<open>two_opt_swap\<close>.
\<close>

function copy_segment :: "nat list \<Rightarrow> nat \<Rightarrow> nat \<Rightarrow> nat list \<Rightarrow> nat list" where
  "copy_segment route k b new_route =
     (if k < b then copy_segment route (k + 1) b (new_route[k := route ! k])
      else new_route)"
  by pat_completeness auto
termination
  by (relation "measure (\<lambda>(route, k, b, new_route). b - k)") auto

declare copy_segment.simps [simp del]

text \<open>
  \<^verbatim>\<open>for (k = j; k >= i; k--) new_route[idx++] = route[k]\<close>. The counter \<^verbatim>\<open>k\<close> runs
  downwards and is an integer.
\<close>

function reverse_segment :: "nat list \<Rightarrow> nat \<Rightarrow> int \<Rightarrow> nat \<Rightarrow> nat list \<Rightarrow> nat list" where
  "reverse_segment route i k idx new_route =
     (if k \<ge> int i then
        reverse_segment route i (k - 1) (idx + 1) (new_route[idx := route ! nat k])
      else new_route)"
  by pat_completeness auto
termination
  by (relation "measure (\<lambda>(route, i, k, idx, new_route). nat (k + 1 - int i))") auto

declare reverse_segment.simps [simp del]

definition two_opt_swap :: "nat list \<Rightarrow> nat \<Rightarrow> nat \<Rightarrow> nat \<Rightarrow> nat list \<Rightarrow> nat list" where
  "two_opt_swap route i j count new_route =
     copy_segment route (j + 1) count
       (reverse_segment route i (int j) i
          (copy_segment route 0 i new_route))"

subsection \<open>Delivery locations\<close>

text \<open>
  \<^verbatim>\<open>generate_delivery_locations\<close>. After \<^verbatim>\<open>srand(seed)\<close> the calls of \<^verbatim>\<open>rand()\<close> return a
  fixed sequence of non-negative numbers; \<open>rnd n\<close> is the value of call number \<open>n\<close>.
  Node \<open>i\<close> takes two values, first for \<^verbatim>\<open>x\<close> and then for \<^verbatim>\<open>y\<close>.
\<close>

function generate_loop ::
  "nat \<Rightarrow> (nat \<Rightarrow> nat) \<Rightarrow> nat \<Rightarrow> DeliveryNode list \<Rightarrow> DeliveryNode list" where
  "generate_loop count rnd i nodes =
     (if i < count then
        generate_loop count rnd (i + 1)
          (nodes[i := \<lparr>node_id = int i,
                        node_x = real (rnd (2 * (i - 1)) mod 100),
                        node_y = real (rnd (2 * (i - 1) + 1) mod 100),
                        node_type = ''DROP''\<rparr>])
      else nodes)"
  by pat_completeness auto
termination
  by (relation "measure (\<lambda>(count, rnd, i, nodes). count - i)") auto

declare generate_loop.simps [simp del]

definition generate_delivery_locations ::
  "DeliveryNode list \<Rightarrow> nat \<Rightarrow> (nat \<Rightarrow> nat) \<Rightarrow> DeliveryNode list" where
  "generate_delivery_locations nodes count rnd =
     generate_loop count rnd 1
       (nodes[0 := \<lparr>node_id = 0, node_x = GRID_SIZE / 2, node_y = GRID_SIZE / 2,
                     node_type = ''HUB''\<rparr>])"

subsection \<open>Nearest-neighbour initial tour\<close>

text \<open>
  The scan \<^verbatim>\<open>for (j = 1; j < count; j++)\<close> over the unvisited nodes. The comparison
  \<^verbatim>\<open>dist < min_dist\<close> holds for every distance while \<^verbatim>\<open>min_dist\<close> is still \<^verbatim>\<open>INFINITY\<close>.
\<close>

function nearest_unvisited ::
  "DeliveryNode list \<Rightarrow> bool list \<Rightarrow> nat \<Rightarrow> nat \<Rightarrow> nat \<Rightarrow> nat option \<Rightarrow> real option
     \<Rightarrow> nat option" where
  "nearest_unvisited nodes visited count current j nearest min_dist =
     (if j < count then
        (if \<not> visited ! j then
           (let dist = calculate_distance (nodes ! current) (nodes ! j) in
            if (case min_dist of None \<Rightarrow> True | Some m \<Rightarrow> dist < m)
            then nearest_unvisited nodes visited count current (j + 1) (Some j) (Some dist)
            else nearest_unvisited nodes visited count current (j + 1) nearest min_dist)
         else nearest_unvisited nodes visited count current (j + 1) nearest min_dist)
      else nearest)"
  by pat_completeness auto
termination
  by (relation "measure (\<lambda>(nodes, visited, count, current, j, nearest, m). count - j)") auto

declare nearest_unvisited.simps [simp del]

text \<open>
  The loop \<^verbatim>\<open>for (i = 1; i < count; i++)\<close>. With \<^verbatim>\<open>nearest\<close> still \<^verbatim>\<open>-1\<close> the C code would
  write \<^verbatim>\<open>visited[-1]\<close>, outside the array: the model returns \<open>None\<close> there.
\<close>

function nearest_neighbor_loop ::
  "DeliveryNode list \<Rightarrow> nat \<Rightarrow> nat \<Rightarrow> nat list \<Rightarrow> bool list \<Rightarrow> nat list option" where
  "nearest_neighbor_loop nodes count i route visited =
     (if i < count then
        (let current = route ! (i - 1) in
         case nearest_unvisited nodes visited count current 1 None None of
           None \<Rightarrow> None
         | Some nearest \<Rightarrow>
             nearest_neighbor_loop nodes count (i + 1)
               (route[i := nearest]) (visited[nearest := True]))
      else Some route)"
  by pat_completeness auto
termination
  by (relation "measure (\<lambda>(nodes, count, i, route, visited). count - i)") auto

declare nearest_neighbor_loop.simps [simp del]

text \<open>The fallback \<^verbatim>\<open>for (i = 0; i < count; i++) route[i] = i\<close>.\<close>

function sequential_route :: "nat \<Rightarrow> nat \<Rightarrow> nat list \<Rightarrow> nat list" where
  "sequential_route count i route =
     (if i < count then sequential_route count (i + 1) (route[i := i]) else route)"
  by pat_completeness auto
termination
  by (relation "measure (\<lambda>(count, i, route). count - i)") auto

declare sequential_route.simps [simp del]

text \<open>\<open>visited_ok\<close> says whether \<^verbatim>\<open>calloc\<close> returned the \<^verbatim>\<open>visited\<close> array.\<close>

definition initialize_route_nearest_neighbor ::
  "DeliveryNode list \<Rightarrow> nat list \<Rightarrow> nat \<Rightarrow> bool \<Rightarrow> nat list option" where
  "initialize_route_nearest_neighbor nodes route count visited_ok =
     (if \<not> visited_ok then Some (sequential_route count 0 route)
      else nearest_neighbor_loop nodes count 1 (route[0 := 0])
             ((replicate count False)[0 := True]))"

subsection \<open>The 2-opt search\<close>

text \<open>
  The search state is \<^verbatim>\<open>route\<close>, \<^verbatim>\<open>new_route\<close>, \<^verbatim>\<open>best_distance\<close> and \<^verbatim>\<open>improved\<close>. The
  inner loop is \<^verbatim>\<open>for (j = i + 1; j < num_stops; j++)\<close>; an accepted candidate is
  copied over \<^verbatim>\<open>route\<close> at once and the scan goes on.
\<close>

type_synonym search_state = "nat list \<times> nat list \<times> real \<times> bool"

function two_opt_inner ::
  "DeliveryNode list \<Rightarrow> nat \<Rightarrow> nat \<Rightarrow> nat \<Rightarrow> search_state \<Rightarrow> search_state" where
  "two_opt_inner nodes num_stops i j (route, new_route, best_distance, improved) =
     (if j < num_stops then
        (let new_route' = two_opt_swap route i j num_stops new_route;
             new_distance = calculate_route_distance nodes new_route' num_stops in
         if new_distance < best_distance - 1 / 1000
         then two_opt_inner nodes num_stops i (j + 1)
                (new_route', new_route', new_distance, True)
         else two_opt_inner nodes num_stops i (j + 1)
                (route, new_route', best_distance, improved))
      else (route, new_route, best_distance, improved))"
  by pat_completeness auto
termination
  by (relation "measure (\<lambda>(nodes, num_stops, i, j, s). num_stops - j)") auto

declare two_opt_inner.simps [simp del]

text \<open>The outer loop \<^verbatim>\<open>for (i = 1; i < num_stops - 1; i++)\<close>.\<close>

function two_opt_pass :: "DeliveryNode list \<Rightarrow> nat \<Rightarrow> nat \<Rightarrow> search_state \<Rightarrow> search_state" where
  "two_opt_pass nodes num_stops i s =
     (if i < num_stops - 1 then
        two_opt_pass nodes num_stops (i + 1) (two_opt_inner nodes num_stops i (i + 1) s)
      else s)"
  by pat_completeness auto
termination
  by (relation "measure (\<lambda>(nodes, num_stops, i, s). num_stops - 1 - i)") auto

declare two_opt_pass.simps [simp del]

text \<open>
  \<^verbatim>\<open>while (improved && iteration < MAX_ITERATIONS)\<close>. The result is the final
  \<^verbatim>\<open>best_distance\<close>, \<^verbatim>\<open>iteration\<close>, \<^verbatim>\<open>route\<close> and \<^verbatim>\<open>improved\<close>.
\<close>

function two_opt_search ::
  "DeliveryNode list \<Rightarrow> nat \<Rightarrow> nat \<Rightarrow> search_state \<Rightarrow> real \<times> nat \<times> nat list \<times> bool" where
  "two_opt_search nodes num_stops iteration (route, new_route, best_distance, improved) =
     (if improved \<and> iteration < MAX_ITERATIONS_logistics then
        two_opt_search nodes num_stops (iteration + 1)
          (two_opt_pass nodes num_stops 1 (route, new_route, best_distance, False))
      else (best_distance, iteration, route, improved))"
  by pat_completeness auto
termination
  by (relation "measure (\<lambda>(nodes, num_stops, iteration, s). MAX_ITERATIONS_logistics - iteration)")
     auto

declare two_opt_search.simps [simp del]

subsection \<open>The exported function\<close>

text \<open>
  \<^verbatim>\<open>optimize_route\<close>. The flags \<open>nodes_ok\<close>, \<open>route_ok\<close> and \<open>new_route_ok\<close> say whether
  the three \<^verbatim>\<open>malloc\<close> calls returned memory. The fresh arrays hold unspecified
  values in C; here they hold a blank node and zeros, and every cell is written
  before it is read. The result is what the call hands to the output buffer: nothing,
  the error text, or the values that the \<^verbatim>\<open>snprintf\<close> calls print (total distance,
  number of passes, the nodes in tour order). The printing itself, which cuts the
  list of stops when the buffer is short, is not modelled.
\<close>

record route_result =
  total_distance :: real
  iterations :: nat
  tour :: "nat list"
  stops :: "DeliveryNode list"

datatype route_outcome =
    No_output
  | Error_payload string
  | Route_payload route_result
  | Out_of_bounds

definition blank_node :: DeliveryNode where
  "blank_node = \<lparr>node_id = 0, node_x = 0, node_y = 0, node_type = []\<rparr>"

definition clamp_stops :: "int \<Rightarrow> nat" where
  "clamp_stops num_stops =
     (let n1 = (if num_stops < MIN_STOPS then 5 else num_stops);
          n2 = (if n1 > MAX_STOPS then MAX_STOPS else n1)
      in nat n2)"

definition optimize_route ::
  "int \<Rightarrow> bool \<Rightarrow> int \<Rightarrow> bool \<Rightarrow> bool \<Rightarrow> bool \<Rightarrow> bool \<Rightarrow> (nat \<Rightarrow> nat) \<Rightarrow> route_outcome" where
  \<open>optimize_route num_stops output_buffer buffer_size nodes_ok route_ok new_route_ok
       visited_ok rnd =
     (if \<not> output_buffer \<or> buffer_size < 100 then No_output
      else
        (let n = clamp_stops num_stops in
         if \<not> nodes_ok \<or> \<not> route_ok \<or> \<not> new_route_ok
         then Error_payload
                (take (nat (buffer_size - 1)) ''{"error":"Memory allocation failed"}'')
         else
           (let nodes = generate_delivery_locations (replicate n blank_node) n rnd in
            case initialize_route_nearest_neighbor nodes (replicate n 0) n visited_ok of
              None \<Rightarrow> Out_of_bounds
            | Some route \<Rightarrow>
                (case two_opt_search nodes n 0
                        (route, replicate n 0, calculate_route_distance nodes route n, True) of
                   (best_distance, iteration, route', improved) \<Rightarrow>
                     Route_payload
                       \<lparr>total_distance = best_distance, iterations = iteration,
                        tour = route', stops = map (\<lambda>idx. nodes ! idx) route'\<rparr>))))\<close>

section \<open>Notions used in the statements\<close>

text \<open>The distance from an observation at \<open>(x, y)\<close> to centroid \<open>k\<close>.\<close>

definition centroid_distance :: "centroid_state \<Rightarrow> real \<Rightarrow> real \<Rightarrow> nat \<Rightarrow> real" where
  "centroid_distance cs x y k = euclidean_distance x y (fst (cs ! k)) (snd (cs ! k))"




text \<open>
  The shape of an error result in the external interface: an object with the single
  key \<^verbatim>\<open>error\<close> and a message text.
\<close>

definition is_error_payload :: "string \<Rightarrow> bool" where
  \<open>is_error_payload s =
     (12 \<le> length s \<and> take 10 s = ''{"error":"'' \<and> drop (length s - 2) s = ''"}'')\<close>

text \<open>
  A tour over \<open>count\<close> nodes: a permutation of the node indices \<open>0, ..., count - 1\<close>
  (no index twice, none missing).
\<close>

definition is_tour :: "nat list \<Rightarrow> nat \<Rightarrow> bool" where
  "is_tour route count \<longleftrightarrow> distinct route \<and> set route = {0..<count}"

text \<open>
  What every stretch of the 2-opt search keeps, between a search state \<open>s\<close> and a
  later one \<open>s'\<close>: the current route is a tour, the candidate buffer has its length,
  the best distance has not grown and is still the distance of the current route, the
  flag \<^verbatim>\<open>improved\<close> is not reset, and a clear flag means that nothing was accepted.
\<close>

definition search_inv :: "DeliveryNode list \<Rightarrow> nat \<Rightarrow> search_state \<Rightarrow> search_state \<Rightarrow> bool" where
  "search_inv nodes n s s' =
     (case s of (route, nr, best, imp) \<Rightarrow>
      case s' of (route', nr', best', imp') \<Rightarrow>
        is_tour route' n \<and> length nr' = n \<and> best' \<le> best \<and>
        (best = calculate_route_distance nodes route n \<longrightarrow>
           best' = calculate_route_distance nodes route' n) \<and>
        (imp \<longrightarrow> imp') \<and>
        (\<not> imp' \<longrightarrow> route' = route \<and> best' = best))"

text \<open>The search state without the candidate buffer \<^verbatim>\<open>new_route\<close>.\<close>

definition search_view :: "search_state \<Rightarrow> nat list \<times> real \<times> bool" where
  "search_view s = (case s of (route, nr, best, imp) \<Rightarrow> (route, best, imp))"


definition example_nodes :: "DeliveryNode list" where
  "example_nodes =
     [\<lparr>node_id = 0, node_x = 50, node_y = 50, node_type = ''HUB''\<rparr>,
      \<lparr>node_id = 1, node_x = 45, node_y = 50, node_type = ''DROP''\<rparr>,
      \<lparr>node_id = 2, node_x = 60, node_y = 50, node_type = ''DROP''\<rparr>,
      \<lparr>node_id = 3, node_x = 30, node_y = 50, node_type = ''DROP''\<rparr>]"

text \<open>
  The payload the external interface asks for: a JSON array with one record per
  observation, in input order, separated by commas.
\<close>

definition observation_records :: "int list \<Rightarrow> int list \<Rightarrow> nat list \<Rightarrow> nat \<Rightarrow> string list" where
  "observation_records points wallets assignments count =
     map (\<lambda>i. format_record (points ! i) (wallets ! i) (cluster_names ! (assignments ! i))
                (calculate_churn_risk (wallets ! i)))
       [0..<count]"

fun comma_separated :: "string list \<Rightarrow> string" where
  "comma_separated [] = []"
| "comma_separated [r] = r"
| "comma_separated (r # rs) = r @ '','' @ comma_separated rs"

definition json_array :: "string list \<Rightarrow> string" where
  "json_array recs = ''['' @ comma_separated recs @ '']''"

section \<open>Properties of the segmentation engine\<close>

subsection \<open>Auxiliary facts about the loops\<close>

lemma nearest_scan_min:
  assumes "k \<le> NUM_CLUSTERS" "b < k" "m = centroid_distance cs x y b"
    and "\<forall>k'<k. m \<le> centroid_distance cs x y k'"
    and "\<forall>k'<b. m < centroid_distance cs x y k'"
  shows "case nearest_scan cs x y k b m of (b', m') \<Rightarrow>
           b' < NUM_CLUSTERS \<and> m' = centroid_distance cs x y b' \<and>
           (\<forall>k'<NUM_CLUSTERS. m' \<le> centroid_distance cs x y k') \<and>
           (\<forall>k'<b'. m' < centroid_distance cs x y k')"
  using assms
proof (induction cs x y k b m rule: nearest_scan.induct)
  case (1 cs x y k b m)
  show ?case
  proof (cases "k < NUM_CLUSTERS")
    case False
    with "1.prems" have "k = NUM_CLUSTERS" by simp
    with "1.prems" show ?thesis
      by (simp add: nearest_scan.simps)
  next
    case True
    let ?d = "centroid_distance cs x y k"
    show ?thesis
    proof (cases "?d < m")
      case less: True
      have step: "nearest_scan cs x y k b m = nearest_scan cs x y (k + 1) k ?d"
        using True less by (subst nearest_scan.simps) (simp add: centroid_distance_def)
      have a: "\<forall>k'<k + 1. ?d \<le> centroid_distance cs x y k'"
      proof (intro allI impI)
        fix k' assume "k' < k + 1"
        then consider "k' < k" | "k' = k" by linarith
        then show "?d \<le> centroid_distance cs x y k'"
          using "1.prems"(4) less by cases force+
      qed
      have b: "\<forall>k'<k. ?d < centroid_distance cs x y k'"
        using "1.prems"(4) less by force
      have "case nearest_scan cs x y (k + 1) k ?d of (b', m') \<Rightarrow>
           b' < NUM_CLUSTERS \<and> m' = centroid_distance cs x y b' \<and>
           (\<forall>k'<NUM_CLUSTERS. m' \<le> centroid_distance cs x y k') \<and>
           (\<forall>k'<b'. m' < centroid_distance cs x y k')"
        using "1.IH"(1) [OF True _ _ _ _ _ a b] True less
        by (simp add: centroid_distance_def)
      then show ?thesis by (simp only: step)
    next
      case geq: False
      have step: "nearest_scan cs x y k b m = nearest_scan cs x y (k + 1) b m"
        using True geq by (subst nearest_scan.simps) (simp add: centroid_distance_def)
      have a: "\<forall>k'<k + 1. m \<le> centroid_distance cs x y k'"
      proof (intro allI impI)
        fix k' assume "k' < k + 1"
        then consider "k' < k" | "k' = k" by linarith
        then show "m \<le> centroid_distance cs x y k'"
          using "1.prems"(4) geq by cases force+
      qed
      have "case nearest_scan cs x y (k + 1) b m of (b', m') \<Rightarrow>
           b' < NUM_CLUSTERS \<and> m' = centroid_distance cs x y b' \<and>
           (\<forall>k'<NUM_CLUSTERS. m' \<le> centroid_distance cs x y k') \<and>
           (\<forall>k'<b'. m' < centroid_distance cs x y k')"
        using "1.IH"(2) [OF True _ _ _ _ _ a "1.prems"(5)] True geq "1.prems"(2,3)
        by (simp add: centroid_distance_def)
      then show ?thesis by (simp only: step)
    qed
  qed
qed

lemma nearest_centroid_min:
  "nearest_centroid cs x y < NUM_CLUSTERS \<and>
   (\<forall>k<NUM_CLUSTERS. centroid_distance cs x y (nearest_centroid cs x y) \<le> centroid_distance cs x y k) \<and>
   (\<forall>k<nearest_centroid cs x y. centroid_distance cs x y (nearest_centroid cs x y) < centroid_distance cs x y k)"
proof -
  have "case nearest_scan cs x y 1 0 (centroid_distance cs x y 0) of (b', m') \<Rightarrow>
           b' < NUM_CLUSTERS \<and> m' = centroid_distance cs x y b' \<and>
           (\<forall>k'<NUM_CLUSTERS. m' \<le> centroid_distance cs x y k') \<and>
           (\<forall>k'<b'. m' < centroid_distance cs x y k')"
    by (rule nearest_scan_min) auto
  then show ?thesis
    by (auto simp: nearest_centroid_def centroid_distance_def split: prod.splits)
qed

lemma assign_loop_length:
  "length (snd (assign_loop count points wallets cs i assignments changed)) = length assignments"
  by (induction count points wallets cs i assignments changed rule: assign_loop.induct)
     (subst assign_loop.simps, simp add: Let_def)

lemma assign_loop_nth:
  assumes "length assignments = count" "j < count"
  shows "snd (assign_loop count points wallets cs i assignments changed) ! j =
           (if i \<le> j then nearest_centroid cs (real_of_int (points ! j)) (real_of_int (wallets ! j))
            else assignments ! j)"
  using assms
proof (induction count points wallets cs i assignments changed rule: assign_loop.induct)
  case (1 count points wallets cs i assignments changed)
  show ?case
  proof (cases "i < count")
    case False
    with "1.prems" show ?thesis by (subst assign_loop.simps) simp
  next
    case True
    let ?b = "nearest_centroid cs (real_of_int (points ! i)) (real_of_int (wallets ! i))"
    show ?thesis
    proof (cases "assignments ! i \<noteq> ?b")
      case differs: True
      have step: "assign_loop count points wallets cs i assignments changed =
                  assign_loop count points wallets cs (i + 1) (assignments[i := ?b]) True"
        using True differs by (subst assign_loop.simps) (simp add: Let_def)
      have "snd (assign_loop count points wallets cs (i + 1) (assignments[i := ?b]) True) ! j =
            (if i + 1 \<le> j then nearest_centroid cs (real_of_int (points ! j)) (real_of_int (wallets ! j))
             else (assignments[i := ?b]) ! j)"
        using "1.IH"(1) [OF True refl refl refl differs] "1.prems" by simp
      then show ?thesis
        unfolding step using "1.prems" True by (cases "i = j") (auto simp: nth_list_update)
    next
      case same: False
      have step: "assign_loop count points wallets cs i assignments changed =
                  assign_loop count points wallets cs (i + 1) assignments changed"
        using True same by (subst assign_loop.simps) (simp add: Let_def)
      have "snd (assign_loop count points wallets cs (i + 1) assignments changed) ! j =
            (if i + 1 \<le> j then nearest_centroid cs (real_of_int (points ! j)) (real_of_int (wallets ! j))
             else assignments ! j)"
        using "1.IH"(2) [OF True refl refl refl same] "1.prems" by simp
      then show ?thesis
        unfolding step using "1.prems" True same by (cases "i = j") auto
    qed
  qed
qed






lemma sqrt_less_iff_square: "0 \<le> c \<Longrightarrow> sqrt a < c \<longleftrightarrow> a < c * c"
  using real_sqrt_less_iff [of a "c * c"] by simp

lemma less_sqrt_iff_square: "0 \<le> c \<Longrightarrow> c < sqrt a \<longleftrightarrow> c * c < a"
  using real_sqrt_less_iff [of "c * c" a] by simp



lemma comma_separated_Cons:
  "comma_separated (r # rs) = r @ (if rs = [] then [] else '','' @ comma_separated rs)"
  by (cases rs) simp_all

lemma comma_separated_split:
  "i < length recs \<Longrightarrow>
   comma_separated recs =
     concat (map (\<lambda>r. r @ '','') (take i recs)) @ comma_separated (drop i recs)"
proof (induction i arbitrary: recs)
  case 0
  then show ?case by simp
next
  case (Suc i)
  then obtain r rs where recs: "recs = r # rs" by (cases recs) auto
  with Suc.prems have "i < length rs" by simp
  then have "rs \<noteq> []" by auto
  with Suc.IH [OF \<open>i < length rs\<close>] show ?case
    by (simp add: recs comma_separated_Cons)
qed

lemma serialize_loop_complete:
  assumes "i \<le> count"
    and "recs = observation_records points wallets assignments count"
    and "int (length (json_array recs)) + 150 \<le> buffer_size"
    and "i < count \<longrightarrow> buf = ''['' @ concat (map (\<lambda>r. r @ '','') (take i recs))"
    and "i = count \<longrightarrow> buf = ''['' @ comma_separated recs"
    and "offset = int (length buf)"
  shows "serialize_loop count points wallets assignments buffer_size i offset buf =
           (int (length (''['' @ comma_separated recs)), ''['' @ comma_separated recs)"
  using assms
proof (induction count points wallets assignments buffer_size i offset buf
       rule: serialize_loop.induct)
  case (1 count points wallets assignments buffer_size i offset buf)
  have len: "length recs = count"
    using "1.prems"(2) by (simp add: observation_records_def)
  show ?case
  proof (cases "i < count")
    case False
    with "1.prems" have "i = count" by simp
    then show ?thesis
      using "1.prems" by (subst serialize_loop.simps) simp
  next
    case True
    let ?rec = "recs ! i"
    let ?pre = "concat (map (\<lambda>r. r @ '','') (take i recs))"
    have rec: "format_record (points ! i) (wallets ! i) (cluster_names ! (assignments ! i))
                 (calculate_churn_risk (wallets ! i)) = ?rec"
      using True "1.prems"(2) by (simp add: observation_records_def)
    have buf: "buf = ''['' @ ?pre" using True "1.prems"(4) by simp
    have drop: "drop i recs = ?rec # drop (i + 1) recs"
      using True len by (simp add: Cons_nth_drop_Suc)
    have split: "comma_separated recs = ?pre @ comma_separated (?rec # drop (i + 1) recs)"
      using comma_separated_split [of i recs] True len drop by simp
    have total: "length (json_array recs) =
                 length buf + length ?rec +
                 length (if drop (i + 1) recs = [] then [] else '','' @ comma_separated (drop (i + 1) recs)) + 1"
      unfolding json_array_def split buf comma_separated_Cons by simp
    have c1: "offset < buffer_size - 150"
      using total "1.prems"(3,6) by simp
    have c2: "\<not> (int (length ?rec) < 0 \<or> int (length ?rec) \<ge> buffer_size - offset)"
      using total "1.prems"(3,6) by simp
    let ?fr = "format_record (points ! i) (wallets ! i) (cluster_names ! (assignments ! i))
                 (calculate_churn_risk (wallets ! i))"
    have c1': "i < count \<and> offset < buffer_size - 150" using True c1 by simp
    have c2': "\<not> (int (length ?fr) < 0 \<or> buffer_size - offset \<le> int (length ?fr))"
      using c2 rec by simp
    show ?thesis
    proof (cases "i + 1 < count")
      case more: True
      have c3: "int i < int count - 1 \<and> offset + int (length ?fr) < buffer_size - 2"
        using more total "1.prems"(3,6) rec by simp
      have step: "serialize_loop count points wallets assignments buffer_size i offset buf =
                  serialize_loop count points wallets assignments buffer_size (i + 1)
                    (offset + int (length ?fr) + 1) (buf @ ?fr @ '','')"
        using c1' c2' c3 by (subst serialize_loop.simps) (simp add: Let_def)
      have take: "take (i + 1) recs = take i recs @ [?rec]"
        using True len by (simp add: take_Suc_conv_app_nth)
      show ?thesis
        unfolding step
      proof (rule "1.IH"(1) [OF c1' refl refl refl refl c2' c3])
        show "i + 1 < count \<longrightarrow>
              buf @ ?fr @ '','' = ''['' @ concat (map (\<lambda>r. r @ '','') (take (i + 1) recs))"
          unfolding take buf rec by simp
        show "i + 1 = count \<longrightarrow> buf @ ?fr @ '','' = ''['' @ comma_separated recs"
          using more by simp
        show "offset + int (length ?fr) + 1 = int (length (buf @ ?fr @ '',''))"
          using "1.prems"(6) by simp
      qed (use more "1.prems" in \<open>simp_all\<close>)
    next
      case last: False
      with True have i: "i + 1 = count" by simp
      have c3: "\<not> (int i < int count - 1 \<and> offset + int (length ?fr) < buffer_size - 2)"
        using i by simp
      have step: "serialize_loop count points wallets assignments buffer_size i offset buf =
                  serialize_loop count points wallets assignments buffer_size (i + 1)
                    (offset + int (length ?fr)) (buf @ ?fr)"
        using c1' c2' i by (subst serialize_loop.simps) (auto simp: Let_def)
      have "drop (i + 1) recs = []" using i len by simp
      then have whole: "buf @ ?fr = ''['' @ comma_separated recs"
        unfolding split buf rec by simp
      show ?thesis
        unfolding step
      proof (rule "1.IH"(2) [OF c1' refl refl refl refl c2' c3])
        show "i + 1 = count \<longrightarrow> buf @ ?fr = ''['' @ comma_separated recs"
          using whole by simp
        show "i + 1 < count \<longrightarrow>
              buf @ ?fr = ''['' @ concat (map (\<lambda>r. r @ '','') (take (i + 1) recs))"
          using i by simp
        show "offset + int (length ?fr) = int (length (buf @ ?fr))"
          using "1.prems"(6) by simp
      qed (use i "1.prems" in \<open>simp_all\<close>)
    qed
  qed
qed

lemma assign_clusters_valid:
  assumes "length assignments = count"
  shows "length (snd (assign_clusters count points wallets cs assignments)) = count \<and>
         (\<forall>i<count. snd (assign_clusters count points wallets cs assignments) ! i < NUM_CLUSTERS)"
  using assms nearest_centroid_min
  by (simp add: assign_clusters_def assign_loop_length assign_loop_nth)

lemma kmeans_loop_valid:
  assumes "length assignments = count"
    and "(iteration < MAX_ITERATIONS_ai \<and> \<not> converged) \<or>
         (\<forall>i<count. assignments ! i < NUM_CLUSTERS)"
  shows "length (snd (kmeans_loop count points wallets iteration converged cs assignments)) = count \<and>
         (\<forall>i<count. snd (kmeans_loop count points wallets iteration converged cs assignments) ! i
                       < NUM_CLUSTERS)"
  using assms
proof (induction count points wallets iteration converged cs assignments
       rule: kmeans_loop.induct)
  case (1 count points wallets iteration converged cs assignments)
  show ?case
  proof (cases "iteration < MAX_ITERATIONS_ai \<and> \<not> converged")
    case False
    have stop: "kmeans_loop count points wallets iteration converged cs assignments =
                (cs, assignments)"
      using False by (subst kmeans_loop.simps) auto
    show ?thesis
      unfolding stop using "1.prems" False by auto
  next
    case True
    obtain changed as' where a: "assign_clusters count points wallets cs assignments = (changed, as')"
      by (cases "assign_clusters count points wallets cs assignments") auto
    obtain movement cs' where u: "update_centroids count points wallets as' cs = (movement, cs')"
      by (cases "update_centroids count points wallets as' cs") auto
    have valid: "length as' = count \<and> (\<forall>i<count. as' ! i < NUM_CLUSTERS)"
      using assign_clusters_valid [OF "1.prems"(1), of points wallets cs] a by simp
    have step: "kmeans_loop count points wallets iteration converged cs assignments =
                kmeans_loop count points wallets (iteration + 1)
                  (\<not> changed \<or> movement < CONVERGENCE_THRESHOLD) cs' as'"
      using True a u by (subst kmeans_loop.simps) simp
    show ?thesis
      unfolding step
      by (rule "1.IH" [OF True a [symmetric] u [symmetric]]) (use valid in simp_all)
  qed
qed

lemma cluster_names_nth: "a < NUM_CLUSTERS \<Longrightarrow> cluster_names ! a \<in> set cluster_names"
  using nth_mem [of a cluster_names] by (simp add: cluster_names_def)

lemmas kmeans_eval = kmeans_loop.simps assign_clusters_def assign_loop.simps nearest_centroid_def
  nearest_scan.simps update_centroids_def accumulate.simps move_loop.simps
  euclidean_distance_def Let_def sqrt_less_iff_square less_sqrt_iff_square

lemma example_assignments_1:
  "snd (kmeans_loop 1 [1] [1] 0 False initial_centroids (replicate 1 0)) = [0]"
  by (simp add: kmeans_eval initial_centroids_def)

lemma example_assignments_2:
  "snd (kmeans_loop 2 [1, 600] [1, 900] 0 False initial_centroids (replicate 2 0)) = [0, 3]"
  by (simp add: kmeans_eval initial_centroids_def eval_nat_numeral)

lemma decimal_eval:
  "decimal 1 = ''1''" "decimal 600 = ''600''" "decimal 900 = ''900''"
  "decimal 85 = ''85''" "decimal 5 = ''5''" "decimal 0 = ''0''" "decimal (Suc 0) = ''1''"
  by (simp_all add: decimal.simps digit_char_def)

lemma example_records_1:
  \<open>observation_records [1] [1] [0] 1 = [''{"x":1,"y":1,"cluster":"Bronze","churn":85.0}'']\<close>
  by (simp add: observation_records_def format_record_def string_of_int_def
        string_of_fixed1_def calculate_churn_risk_def cluster_names_def decimal_eval)

lemma example_records_2:
  \<open>observation_records [1, 600] [1, 900] [0, 3] 2 =
     [''{"x":1,"y":1,"cluster":"Bronze","churn":85.0}'',
      ''{"x":600,"y":900,"cluster":"Titanium","churn":5.0}'']\<close>
  by (simp add: observation_records_def format_record_def string_of_int_def
        string_of_fixed1_def calculate_churn_risk_def cluster_names_def decimal_eval upt_rec)

lemma short_region_output:
  assumes "0 < count" and "100 \<le> buffer_size" and "buffer_size \<le> 151"
  shows "snd (perform_clustering cs True count (Some points) (Some wallets) True buffer_size)
           = Some ''[]''"
  using assms
  by (subst perform_clustering_def, subst serialize_loop.simps) (simp split: prod.splits)

subsection \<open>The claims\<close>

text \<open>
  C4. The churn-risk estimate is computed by \<^verbatim>\<open>calculate_churn_risk\<close> from the wallet
  balance alone (the eco score is not an argument): 85 below 50, 55 from 50 up to
  200, 25 from 200 up to 500 and 5 from 500 on. The wallet balances 10, 100, 600 and
  900 give 85, 55, 5 and 5, and these are the churn values in the four records,
  whatever the eco scores and the assigned tiers are.
\<close>

theorem churn_risk_step_function:
  "(w < 50 \<longrightarrow> calculate_churn_risk w = 85) \<and>
   (50 \<le> w \<and> w < 200 \<longrightarrow> calculate_churn_risk w = 55) \<and>
   (200 \<le> w \<and> w < 500 \<longrightarrow> calculate_churn_risk w = 25) \<and>
   (500 \<le> w \<longrightarrow> calculate_churn_risk w = 5) \<and>
   map calculate_churn_risk [10, 100, 600, 900] = [85, 55, 5, 5] \<and>
   observation_records points [10, 100, 600, 900] assignments 4 =
     [format_record (points ! 0) 10 (cluster_names ! (assignments ! 0)) 85,
      format_record (points ! 1) 100 (cluster_names ! (assignments ! 1)) 55,
      format_record (points ! 2) 600 (cluster_names ! (assignments ! 2)) 5,
      format_record (points ! 3) 900 (cluster_names ! (assignments ! 3)) 5]"
  by (simp add: calculate_churn_risk_def observation_records_def upt_rec numeral_2_eq_2
        numeral_3_eq_3)

theorem churn_risk_step_function_witness:
  "calculate_churn_risk 49 = 85 \<and> calculate_churn_risk 50 = 55 \<and>
   calculate_churn_risk 199 = 55 \<and> calculate_churn_risk 200 = 25 \<and>
   calculate_churn_risk 499 = 25 \<and> calculate_churn_risk 500 = 5"
  using churn_risk_step_function [of 49] churn_risk_step_function [of 50]
    churn_risk_step_function [of 199] churn_risk_step_function [of 200]
    churn_risk_step_function [of 499] churn_risk_step_function [of 500]
  by simp







text \<open>
  C10. On a degenerate call of \<^verbatim>\<open>perform_clustering\<close> (count not positive, a null
  \<^verbatim>\<open>points\<close> or \<^verbatim>\<open>wallets\<close> array, a null output region or one below 100 bytes) and on
  a call where the allocation of the assignments array fails, the four centroids
  after the call are the four centroids before it.
\<close>

theorem degenerate_call_keeps_centroids:
  assumes "count \<le> 0 \<or> points = None \<or> wallets = None \<or> \<not> output_buffer \<or>
           buffer_size < 100 \<or> \<not> alloc_ok"
  shows "fst (perform_clustering cs alloc_ok count points wallets output_buffer buffer_size) = cs"
  using assms by (auto simp: perform_clustering_def)

theorem degenerate_call_keeps_centroids_witness:
  "fst (perform_clustering initial_centroids True 0 (Some []) (Some []) True 200)
     = initial_centroids \<and>
   fst (perform_clustering initial_centroids True 2 None (Some [5, 7]) True 200)
     = initial_centroids \<and>
   fst (perform_clustering initial_centroids True 2 (Some [5, 7]) (Some [5, 7]) True 99)
     = initial_centroids \<and>
   fst (perform_clustering initial_centroids False 2 (Some [5, 7]) (Some [5, 7]) True 200)
     = initial_centroids"
  using degenerate_call_keeps_centroids [of 0 "Some []" "Some []" True 200 True initial_centroids]
    degenerate_call_keeps_centroids [of 2 None "Some [5, 7]" True 200 True initial_centroids]
    degenerate_call_keeps_centroids [of 2 "Some [5, 7]" "Some [5, 7]" True 99 True initial_centroids]
    degenerate_call_keeps_centroids [of 2 "Some [5, 7]" "Some [5, 7]" True 200 False initial_centroids]
  by simp

text \<open>
  C7, as amended. When one of the three working buffers of the route optimizer cannot
  be allocated, the call hands the error object with the message
  \<^verbatim>\<open>Memory allocation failed\<close> to the output region and nothing else. When the
  assignments array of the segmentation engine cannot be allocated, the call writes
  the empty list \<^verbatim>\<open>[]\<close> and leaves the centroids as they were. Both calls return
  normally.
\<close>

theorem allocation_failure_outputs:
  \<open>(100 \<le> buffer_size \<and> (\<not> nodes_ok \<or> \<not> route_ok \<or> \<not> new_route_ok) \<longrightarrow>
      optimize_route num_stops True buffer_size nodes_ok route_ok new_route_ok visited_ok rnd
        = Error_payload ''{"error":"Memory allocation failed"}'' \<and>
      is_error_payload ''{"error":"Memory allocation failed"}'') \<and>
   (0 < count \<and> 100 \<le> buffer_size \<longrightarrow>
      perform_clustering cs False count (Some points) (Some wallets) True buffer_size
        = (cs, Some ''[]''))\<close>
  by (auto simp: optimize_route_def perform_clustering_def write_empty_list_def
        is_error_payload_def)

theorem allocation_failure_outputs_witness:
  \<open>optimize_route 5 True 100 True False True True (\<lambda>n. 7)
     = Error_payload ''{"error":"Memory allocation failed"}'' \<and>
   perform_clustering initial_centroids False 1 (Some [1]) (Some [1]) True 100
     = (initial_centroids, Some ''[]'')\<close>
  using allocation_failure_outputs [of 100 True False True 5 True "\<lambda>n. 7" 1 initial_centroids "[1]" "[1]"]
  by simp

text \<open>
  C7, as stated, fails for the segmentation engine: on allocation failure it writes
  \<^verbatim>\<open>[]\<close>, which is not of the error shape and is the very text written for a
  degenerate input.
\<close>

theorem segmentation_allocation_failure_is_not_error_shaped:
  "\<not> is_error_payload
       (the (snd (perform_clustering initial_centroids False 1 (Some [1]) (Some [1]) True 100))) \<and>
   snd (perform_clustering initial_centroids False 1 (Some [1]) (Some [1]) True 100)
     = snd (perform_clustering initial_centroids True 0 (Some []) (Some []) True 100)"
  by (simp add: perform_clustering_def write_empty_list_def is_error_payload_def)

text \<open>
  C1, as amended. For a call of \<^verbatim>\<open>perform_clustering\<close> with \<open>count \<ge> 1\<close>, arrays of
  \<open>count\<close> entries, a successful allocation of the assignments array and an output
  region at least 150 bytes larger than the full payload, the text written is the
  full payload: a JSON array of exactly \<open>count\<close> records, one per observation and in
  input order, each with the observation's two values, its churn estimate and a tier
  name from the four names Bronze, Silver, Gold and Titanium.
\<close>

theorem clustering_output_complete:
  assumes "1 \<le> count"
    and "length points = nat count" and "length wallets = nat count"
    and "assignments =
           snd (kmeans_loop (nat count) points wallets 0 False cs (replicate (nat count) 0))"
    and "recs = observation_records points wallets assignments (nat count)"
    and "int (length (json_array recs)) + 150 \<le> buffer_size"
  shows "snd (perform_clustering cs True count (Some points) (Some wallets) True buffer_size)
           = Some (json_array recs) \<and>
         length recs = nat count \<and>
         (\<forall>i<nat count. \<exists>name \<in> set cluster_names.
            recs ! i = format_record (points ! i) (wallets ! i) name
                         (calculate_churn_risk (wallets ! i))) \<and>
         set cluster_names = {''Bronze'', ''Silver'', ''Gold'', ''Titanium''}"
proof -
  let ?n = "nat count"
  obtain cs' where k: "kmeans_loop ?n points wallets 0 False cs (replicate ?n 0) = (cs', assignments)"
    using assms(4) by (cases "kmeans_loop ?n points wallets 0 False cs (replicate ?n 0)") auto
  have valid: "\<forall>i<?n. assignments ! i < NUM_CLUSTERS"
    using kmeans_loop_valid [of "replicate ?n 0" ?n 0 False points wallets cs] assms(4) by simp
  have loop: "serialize_loop ?n points wallets assignments buffer_size 0 1 ''['' =
                (int (length (''['' @ comma_separated recs)), ''['' @ comma_separated recs)"
    using assms(1)
    by (intro serialize_loop_complete [OF _ assms(5,6)]) auto
  have big: "100 \<le> buffer_size \<and> int (length (''['' @ comma_separated recs)) < buffer_size - 1"
    using assms(6) by (simp add: json_array_def)
  have out: "snd (perform_clustering cs True count (Some points) (Some wallets) True buffer_size)
               = Some (json_array recs)"
    using assms(1) big k loop by (simp add: perform_clustering_def json_array_def)
  have len: "length recs = ?n"
    using assms(5) by (simp add: observation_records_def)
  have names: "\<exists>name \<in> set cluster_names.
            recs ! i = format_record (points ! i) (wallets ! i) name
                         (calculate_churn_risk (wallets ! i))" if "i < ?n" for i
    using that valid assms(5) cluster_names_nth [of "assignments ! i"]
    by (auto simp: observation_records_def)
  have "set cluster_names = {''Bronze'', ''Silver'', ''Gold'', ''Titanium''}"
    by (simp add: cluster_names_def)
  with out len names show ?thesis by blast
qed

theorem clustering_output_complete_witness:
  \<open>snd (perform_clustering initial_centroids True 2 (Some [1, 600]) (Some [1, 900]) True 300)
     = Some (''[{"x":1,"y":1,"cluster":"Bronze","churn":85.0},'' @
             ''{"x":600,"y":900,"cluster":"Titanium","churn":5.0}]'')\<close>
proof -
  let ?recs = "observation_records [1, 600] [1, 900] [0, 3] 2"
  have h4: "[0, 3] = snd (kmeans_loop (nat 2) [1, 600] [1, 900] 0 False initial_centroids
                            (replicate (nat 2) 0))"
    using example_assignments_2 by simp
  have h5: "?recs = observation_records [1, 600] [1, 900] [0, 3] (nat 2)"
    by simp
  have h6: "int (length (json_array ?recs)) + 150 \<le> 300"
    by (simp add: example_records_2 json_array_def)
  show ?thesis
    using clustering_output_complete [of 2 "[1, 600]" "[1, 900]" "[0, 3]" initial_centroids
        ?recs 300, OF _ _ _ h4 h5 h6]
    by (simp add: example_records_2 json_array_def)
qed

text \<open>
  C1, as stated, fails: a region of 100 bytes holds the full payload of a single
  observation (47 characters and the terminator), yet the record loop only runs while
  \<^verbatim>\<open>offset < buffer_size - 150\<close>, so the call writes \<^verbatim>\<open>[]\<close> with no record.
\<close>

theorem region_of_100_bytes_drops_the_record:
  \<open>json_array (observation_records [1] [1]
       (snd (kmeans_loop 1 [1] [1] 0 False initial_centroids (replicate 1 0))) 1)
     = ''[{"x":1,"y":1,"cluster":"Bronze","churn":85.0}]'' \<and>
   length ''[{"x":1,"y":1,"cluster":"Bronze","churn":85.0}]'' + 1 \<le> (100 :: nat) \<and>
   snd (perform_clustering initial_centroids True 1 (Some [1]) (Some [1]) True 100)
     = Some ''[]''\<close>
proof -
  have \<open>json_array (observation_records [1] [1]
       (snd (kmeans_loop 1 [1] [1] 0 False initial_centroids (replicate 1 0))) 1)
     = ''[{"x":1,"y":1,"cluster":"Bronze","churn":85.0}]''\<close>
    unfolding example_assignments_1 example_records_1 by (simp add: json_array_def)
  moreover have "snd (perform_clustering initial_centroids True 1 (Some [1]) (Some [1]) True 100)
     = Some ''[]''"
    by (rule short_region_output) simp_all
  ultimately show ?thesis by simp
qed

section \<open>Properties of the route optimizer\<close>

subsection \<open>Auxiliary facts about the loops\<close>

lemma is_tour_length: "is_tour route count \<Longrightarrow> length route = count"
  using distinct_card [of route] by (simp add: is_tour_def)

lemma copy_segment_length: "length (copy_segment route k b nr) = length nr"
proof (induction route k b nr rule: copy_segment.induct)
  case (1 route k b nr)
  show ?case
  proof (cases "k < b")
    case True
    then show ?thesis using "1.IH" by (subst copy_segment.simps) simp
  next
    case False
    then show ?thesis by (subst copy_segment.simps) simp
  qed
qed

lemma copy_segment_nth:
  "m < length nr \<Longrightarrow>
   copy_segment route k b nr ! m = (if k \<le> m \<and> m < b then route ! m else nr ! m)"
proof (induction route k b nr rule: copy_segment.induct)
  case (1 route k b nr)
  show ?case
  proof (cases "k < b")
    case True
    have step: "copy_segment route k b nr = copy_segment route (k + 1) b (nr[k := route ! k])"
      using True by (subst copy_segment.simps) simp
    show ?thesis
      unfolding step using "1.IH" [OF True] "1.prems" True
      by (cases "m = k") (auto simp: nth_list_update)
  next
    case False
    then show ?thesis by (subst copy_segment.simps) auto
  qed
qed

lemma reverse_segment_length: "length (reverse_segment route i k idx nr) = length nr"
proof (induction route i k idx nr rule: reverse_segment.induct)
  case (1 route i k idx nr)
  show ?case
  proof (cases "k \<ge> int i")
    case True
    then show ?thesis using "1.IH" by (subst reverse_segment.simps) simp
  next
    case False
    then show ?thesis by (subst reverse_segment.simps) simp
  qed
qed

lemma reverse_segment_nth:
  "m < length nr \<Longrightarrow>
   reverse_segment route i k idx nr ! m =
     (if idx \<le> m \<and> int m - int idx \<le> k - int i
      then route ! nat (k - (int m - int idx)) else nr ! m)"
proof (induction route i k idx nr rule: reverse_segment.induct)
  case (1 route i k idx nr)
  show ?case
  proof (cases "k \<ge> int i")
    case True
    have step: "reverse_segment route i k idx nr =
                reverse_segment route i (k - 1) (idx + 1) (nr[idx := route ! nat k])"
      using True by (subst reverse_segment.simps) simp
    show ?thesis
      unfolding step using "1.IH" [OF True] "1.prems" True
      by (cases "m = idx") (auto simp: nth_list_update algebra_simps)
  next
    case False
    then show ?thesis by (subst reverse_segment.simps) auto
  qed
qed

lemma two_opt_swap_length:
  "length (two_opt_swap route i j count nr) = length nr"
  by (simp add: two_opt_swap_def copy_segment_length reverse_segment_length)

lemma two_opt_swap_nth:
  assumes "m < count" "length nr = count" "i \<le> j" "j < count"
  shows "two_opt_swap route i j count nr ! m =
           (if i \<le> m \<and> m \<le> j then route ! (i + j - m) else route ! m)"
proof -
  let ?a = "copy_segment route 0 i nr"
  let ?b = "reverse_segment route i (int j) i ?a"
  have la: "length ?a = count" using assms by (simp add: copy_segment_length)
  have lb: "length ?b = count" using la by (simp add: reverse_segment_length)
  have a: "?a ! m = (if m < i then route ! m else nr ! m)"
    using assms by (simp add: copy_segment_nth)
  have b: "?b ! m = (if i \<le> m \<and> m \<le> j then route ! (i + j - m) else ?a ! m)"
  proof (cases "i \<le> m \<and> m \<le> j")
    case True
    then have "nat (int j - (int m - int i)) = i + j - m" by linarith
    then show ?thesis
      using True la assms by (simp add: reverse_segment_nth)
  next
    case False
    then show ?thesis
      using la assms by (auto simp: reverse_segment_nth)
  qed
  have "two_opt_swap route i j count nr ! m =
          (if j + 1 \<le> m \<and> m < count then route ! m else ?b ! m)"
    using lb assms by (simp add: two_opt_swap_def copy_segment_nth)
  then show ?thesis
    using a b assms by auto
qed

lemma two_opt_swap_eq:
  assumes "length route = count" "length nr = count" "i \<le> j" "j < count"
  shows "two_opt_swap route i j count nr =
           take i route @ rev (take (j + 1 - i) (drop i route)) @ drop (j + 1) route"
proof (rule nth_equalityI)
  show "length (two_opt_swap route i j count nr) =
        length (take i route @ rev (take (j + 1 - i) (drop i route)) @ drop (j + 1) route)"
    using assms by (simp add: two_opt_swap_length)
next
  fix m assume "m < length (two_opt_swap route i j count nr)"
  then have m: "m < count" using assms by (simp add: two_opt_swap_length)
  consider "m < i" | "i \<le> m" "m \<le> j" | "j < m" by linarith
  then show "two_opt_swap route i j count nr ! m =
        (take i route @ rev (take (j + 1 - i) (drop i route)) @ drop (j + 1) route) ! m"
  proof cases
    case 1
    then show ?thesis
      using assms m by (simp add: two_opt_swap_nth nth_append)
  next
    case 2
    have "(j + 1 - i) - Suc (m - i) = j - m" "m - i < j + 1 - i" "i + (j - m) = i + j - m"
      using 2 by linarith+
    then show ?thesis
      using assms m 2 by (simp add: two_opt_swap_nth nth_append rev_nth)
  next
    case 3
    have "min count i = i" "min (count - i) (j + 1 - i) = j + 1 - i"
      "\<not> m < i" "\<not> m - i < j + 1 - i" "j + 1 + (m - i - (j + 1 - i)) = m"
      using 3 assms m by linarith+
    then show ?thesis
      using assms m 3 by (simp add: two_opt_swap_nth nth_append)
  qed
qed

lemma two_opt_swap_is_tour:
  assumes "is_tour route count" "length nr = count" "i \<le> j" "j < count"
  shows "is_tour (two_opt_swap route i j count nr) count"
proof -
  let ?A = "take i route" and ?B = "take (j + 1 - i) (drop i route)"
    and ?C = "drop (j + 1) route"
  have len: "length route = count" by (rule is_tour_length [OF assms(1)])
  have "take (i + (j + 1 - i)) route = ?A @ ?B" by (rule take_add)
  moreover have "i + (j + 1 - i) = j + 1" using assms(3) by simp
  ultimately have "take (j + 1) route = ?A @ ?B" by simp
  then have route: "route = ?A @ ?B @ ?C"
    using append_take_drop_id [of "j + 1" route] by simp
  have swap: "two_opt_swap route i j count nr = ?A @ rev ?B @ ?C"
    by (rule two_opt_swap_eq [OF len assms(2,3,4)])
  have "distinct (?A @ rev ?B @ ?C) = distinct (?A @ ?B @ ?C)" by auto
  moreover have "set (?A @ rev ?B @ ?C) = set (?A @ ?B @ ?C)" by auto
  ultimately show ?thesis
    using assms(1) unfolding is_tour_def swap
    by (simp only: route [symmetric])
qed








lemma search_inv_refl:
  "is_tour route n \<Longrightarrow> length nr = n \<Longrightarrow>
   search_inv nodes n (route, nr, best, imp) (route, nr, best, imp)"
  by (simp add: search_inv_def)

lemma search_inv_trans:
  "search_inv nodes n s s' \<Longrightarrow> search_inv nodes n s' s'' \<Longrightarrow> search_inv nodes n s s''"
  by (auto simp: search_inv_def split: prod.splits)

lemma two_opt_inner_inv:
  assumes "is_tour route n" and "length nr = n" and "i < j"
  shows "search_inv nodes n (route, nr, best, imp)
           (two_opt_inner nodes n i j (route, nr, best, imp))"
  using assms
proof (induction nodes n i j "(route, nr, best, imp)" arbitrary: route nr best imp
       rule: two_opt_inner.induct)
  case (1 nodes n i j route nr best imp)
  show ?case
  proof (cases "j < n")
    case False
    then show ?thesis
      using "1.prems" by (subst two_opt_inner.simps) (simp add: search_inv_refl)
  next
    case True
    let ?nr = "two_opt_swap route i j n nr"
    let ?d = "calculate_route_distance nodes ?nr n"
    have tour: "is_tour ?nr n"
      using two_opt_swap_is_tour [OF "1.prems"(1,2) _ True] "1.prems"(3) by simp
    have len: "length ?nr = n"
      using "1.prems"(2) by (simp add: two_opt_swap_length)
    show ?thesis
    proof (cases "?d < best - 1 / 1000")
      case accept: True
      have step: "two_opt_inner nodes n i j (route, nr, best, imp) =
                  two_opt_inner nodes n i (j + 1) (?nr, ?nr, ?d, True)"
        using True accept by (subst two_opt_inner.simps) (simp add: Let_def)
      have "search_inv nodes n (?nr, ?nr, ?d, True)
              (two_opt_inner nodes n i (j + 1) (?nr, ?nr, ?d, True))"
        using "1.hyps"(1) [OF True refl refl accept tour len] "1.prems"(3) by simp
      moreover have "search_inv nodes n (route, nr, best, imp) (?nr, ?nr, ?d, True)"
        using tour len accept by (simp add: search_inv_def)
      ultimately show ?thesis
        unfolding step by (rule search_inv_trans [rotated])
    next
      case reject: False
      have step: "two_opt_inner nodes n i j (route, nr, best, imp) =
                  two_opt_inner nodes n i (j + 1) (route, ?nr, best, imp)"
        using True reject by (subst two_opt_inner.simps) (simp add: Let_def)
      have "search_inv nodes n (route, ?nr, best, imp)
              (two_opt_inner nodes n i (j + 1) (route, ?nr, best, imp))"
        using "1.hyps"(2) [OF True refl refl reject "1.prems"(1) len] "1.prems"(3) by simp
      moreover have "search_inv nodes n (route, nr, best, imp) (route, ?nr, best, imp)"
        using "1.prems"(1) len by (simp add: search_inv_def)
      ultimately show ?thesis
        unfolding step by (rule search_inv_trans [rotated])
    qed
  qed
qed

lemma two_opt_pass_inv:
  assumes "is_tour route n" and "length nr = n"
  shows "search_inv nodes n (route, nr, best, imp)
           (two_opt_pass nodes n i (route, nr, best, imp))"
  using assms
proof (induction nodes n i "(route, nr, best, imp)" arbitrary: route nr best imp
       rule: two_opt_pass.induct)
  case (1 nodes n i route nr best imp)
  show ?case
  proof (cases "i < n - 1")
    case False
    then show ?thesis
      using "1.prems" by (subst two_opt_pass.simps) (simp add: search_inv_refl)
  next
    case True
    obtain r1 nr1 b1 imp1 where s1:
      "two_opt_inner nodes n i (i + 1) (route, nr, best, imp) = (r1, nr1, b1, imp1)"
      by (cases "two_opt_inner nodes n i (i + 1) (route, nr, best, imp)") auto
    have inv1: "search_inv nodes n (route, nr, best, imp) (r1, nr1, b1, imp1)"
      using two_opt_inner_inv [OF "1.prems", of i "i + 1" nodes best imp] s1 by simp
    then have t1: "is_tour r1 n" and l1: "length nr1 = n"
      by (simp_all add: search_inv_def)
    have step: "two_opt_pass nodes n i (route, nr, best, imp) =
                two_opt_pass nodes n (i + 1) (r1, nr1, b1, imp1)"
      using True s1 by (subst two_opt_pass.simps) simp
    have "search_inv nodes n (r1, nr1, b1, imp1)
            (two_opt_pass nodes n (i + 1) (r1, nr1, b1, imp1))"
      using "1.hyps" [OF True s1 t1 l1] .
    with inv1 show ?thesis
      unfolding step by (rule search_inv_trans)
  qed
qed


lemma generate_loop_length: "length (generate_loop count rnd i nodes) = length nodes"
proof (induction count rnd i nodes rule: generate_loop.induct)
  case (1 count rnd i nodes)
  show ?case
  proof (cases "i < count")
    case True
    then show ?thesis using "1.IH" by (subst generate_loop.simps) simp
  next
    case False
    then show ?thesis by (subst generate_loop.simps) simp
  qed
qed








lemma replicate4: "replicate 4 x = [x, x, x, x]"
  by (simp add: eval_nat_numeral)





lemma example_final_distance:
  "calculate_route_distance example_nodes [0, 2, 1, 3] 4 = 60"
  by (simp add: calculate_route_distance_def route_sum.simps calculate_distance_def Let_def
        example_nodes_def)



subsection \<open>The claims\<close>





subsection \<open>The search as a fixed point\<close>

text \<open>
  The outcome of a pass does not depend on what the candidate buffer held before, and
  a pass that leaves \<^verbatim>\<open>improved\<close> clear has changed neither the route nor the best
  distance. So when the search stops because a pass accepted no swap, a second search
  from the returned tour makes one pass, accepts nothing and returns the same tour
  and distance. This is the case whenever the reported number of passes is below 200.
  A search stopped by the limit of 200 passes, with \<^verbatim>\<open>improved\<close> still set, is not
  covered. The last lemma runs the second search on the example.
\<close>

lemma two_opt_swap_buffer:
  assumes "length route = count" "length nr1 = count" "length nr2 = count" "i \<le> j" "j < count"
  shows "two_opt_swap route i j count nr1 = two_opt_swap route i j count nr2"
  using two_opt_swap_eq [OF assms(1,2,4,5)] two_opt_swap_eq [OF assms(1,3,4,5)] by simp

lemma two_opt_inner_buffer:
  assumes "is_tour route n" and "length nr1 = n" and "length nr2 = n" and "i < j"
  shows "search_view (two_opt_inner nodes n i j (route, nr1, best, imp)) =
         search_view (two_opt_inner nodes n i j (route, nr2, best, imp))"
proof (cases "j < n")
  case False
  then show ?thesis
    by (subst (1 2) two_opt_inner.simps) (simp add: search_view_def)
next
  case True
  have swap: "two_opt_swap route i j n nr1 = two_opt_swap route i j n nr2"
    using two_opt_swap_buffer [OF is_tour_length [OF assms(1)] assms(2,3) _ True] assms(4)
    by simp
  show ?thesis
    using True by (subst (1 2) two_opt_inner.simps) (simp add: Let_def swap)
qed

lemma two_opt_pass_buffer:
  assumes "is_tour route n" and "length nr1 = n" and "length nr2 = n"
  shows "search_view (two_opt_pass nodes n i (route, nr1, best, imp)) =
         search_view (two_opt_pass nodes n i (route, nr2, best, imp))"
  using assms
proof (induction nodes n i "(route, nr1, best, imp)" arbitrary: route nr1 nr2 best imp
       rule: two_opt_pass.induct)
  case (1 nodes n i route nr1 best imp)
  show ?case
  proof (cases "i < n - 1")
    case False
    then show ?thesis
      by (subst (1 2) two_opt_pass.simps) (simp add: search_view_def)
  next
    case True
    obtain r1 b1 m1 imp1 where s1:
      "two_opt_inner nodes n i (i + 1) (route, nr1, best, imp) = (r1, b1, m1, imp1)"
      by (cases "two_opt_inner nodes n i (i + 1) (route, nr1, best, imp)") auto
    obtain r2 b2 m2 imp2 where s2:
      "two_opt_inner nodes n i (i + 1) (route, nr2, best, imp) = (r2, b2, m2, imp2)"
      by (cases "two_opt_inner nodes n i (i + 1) (route, nr2, best, imp)") auto
    have same: "r2 = r1 \<and> m2 = m1 \<and> imp2 = imp1"
      using two_opt_inner_buffer [OF "1.prems", of i "i + 1" nodes best imp] s1 s2
      by (simp add: search_view_def)
    have inv1: "is_tour r1 n \<and> length b1 = n"
      using two_opt_inner_inv [OF "1.prems"(1,2), of i "i + 1" nodes best imp] s1
      by (simp add: search_inv_def)
    have inv2: "length b2 = n"
      using two_opt_inner_inv [OF "1.prems"(1,3), of i "i + 1" nodes best imp] s2
      by (simp add: search_inv_def)
    have "search_view (two_opt_pass nodes n (i + 1) (r1, b1, m1, imp1)) =
          search_view (two_opt_pass nodes n (i + 1) (r1, b2, m1, imp1))"
      using "1.hyps" [OF True s1] inv1 inv2 by simp
    then show ?thesis
      using True s1 s2 same by (subst (1 2) two_opt_pass.simps) simp
  qed
qed

lemma two_opt_search_last_pass:
  assumes "is_tour route n" and "length nr = n"
    and "best = calculate_route_distance nodes route n"
    and "two_opt_search nodes n iteration (route, nr, best, imp) = (best', iteration', route', False)"
  shows "is_tour route' n \<and> best' = calculate_route_distance nodes route' n \<and>
         (if imp \<and> iteration < MAX_ITERATIONS_logistics
          then \<exists>nrp. length nrp = n \<and>
                 search_view (two_opt_pass nodes n 1 (route', nrp, best', False))
                   = (route', best', False)
          else route' = route \<and> best' = best)"
  using assms
proof (induction nodes n iteration "(route, nr, best, imp)" arbitrary: route nr best imp
       rule: two_opt_search.induct)
  case (1 nodes n iteration route nr best imp)
  show ?case
  proof (cases "imp \<and> iteration < MAX_ITERATIONS_logistics")
    case False
    then have "two_opt_search nodes n iteration (route, nr, best, imp)
                 = (best, iteration, route, imp)"
      by (subst two_opt_search.simps) auto
    with "1.prems" False show ?thesis by auto
  next
    case True
    obtain r1 nr1 b1 imp1 where s1:
      "two_opt_pass nodes n 1 (route, nr, best, False) = (r1, nr1, b1, imp1)"
      by (cases "two_opt_pass nodes n 1 (route, nr, best, False)") auto
    have inv1: "search_inv nodes n (route, nr, best, False) (r1, nr1, b1, imp1)"
      using two_opt_pass_inv [OF "1.prems"(1,2), of nodes best False 1] s1 by simp
    then have t1: "is_tour r1 n" and l1: "length nr1 = n"
      and d1: "b1 = calculate_route_distance nodes r1 n"
      using "1.prems"(3) by (simp_all add: search_inv_def)
    have step: "two_opt_search nodes n iteration (route, nr, best, imp) =
                two_opt_search nodes n (iteration + 1) (r1, nr1, b1, imp1)"
      using True s1 by (subst two_opt_search.simps) simp
    have run: "two_opt_search nodes n (iteration + 1) (r1, nr1, b1, imp1)
                 = (best', iteration', route', False)"
      using "1.prems"(4) by (simp only: step)
    have ih: "is_tour route' n \<and> best' = calculate_route_distance nodes route' n \<and>
         (if imp1 \<and> iteration + 1 < MAX_ITERATIONS_logistics
          then \<exists>nrp. length nrp = n \<and>
                 search_view (two_opt_pass nodes n 1 (route', nrp, best', False))
                   = (route', best', False)
          else route' = r1 \<and> best' = b1)"
      by (rule "1.hyps" [OF True s1 t1 l1 d1 run])
    have flag: "\<not> imp1" if "\<not> (imp1 \<and> iteration + 1 < MAX_ITERATIONS_logistics)"
    proof -
      have "two_opt_search nodes n (iteration + 1) (r1, nr1, b1, imp1)
              = (b1, iteration + 1, r1, imp1)"
        using that by (subst two_opt_search.simps) auto
      with run show ?thesis by simp
    qed
    show ?thesis
    proof (cases "imp1 \<and> iteration + 1 < MAX_ITERATIONS_logistics")
      case again: True
      have "\<exists>nrp. length nrp = n \<and>
                 search_view (two_opt_pass nodes n 1 (route', nrp, best', False))
                   = (route', best', False)"
        using conjunct2 [OF conjunct2 [OF ih]] by (simp only: again if_True)
      then show ?thesis
        using conjunct1 [OF ih] conjunct1 [OF conjunct2 [OF ih]]
        by (simp only: True if_True simp_thms)
    next
      case stop: False
      have "route' = r1 \<and> best' = b1"
        using conjunct2 [OF conjunct2 [OF ih]] by (simp only: stop if_False)
      then have eq: "route' = r1" "best' = b1" by simp_all
      have "\<not> imp1" using flag [OF stop] .
      with inv1 have same: "r1 = route" "b1 = best"
        by (simp_all add: search_inv_def)
      have "search_view (two_opt_pass nodes n 1 (route', nr, best', False))
              = (route', best', False)"
        using s1 \<open>\<not> imp1\<close> unfolding eq same by (simp add: search_view_def)
      with "1.prems"(2) have "\<exists>nrp. length nrp = n \<and>
                 search_view (two_opt_pass nodes n 1 (route', nrp, best', False))
                   = (route', best', False)"
        by blast
      then show ?thesis
        using conjunct1 [OF ih] conjunct1 [OF conjunct2 [OF ih]]
        by (simp only: True if_True simp_thms)
    qed
  qed
qed

lemma two_opt_fixed_point_when_converged:
  assumes "is_tour route n" and "length nr = n" and "length nr' = n"
    and "two_opt_search nodes n 0 (route, nr, calculate_route_distance nodes route n, True)
           = (best, iteration, route', False)"
  shows "two_opt_search nodes n 0 (route', nr', calculate_route_distance nodes route' n, True)
           = (best, 1, route', False)"
proof -
  note lp = two_opt_search_last_pass [OF assms(1,2) refl assms(4)]
  have t: "is_tour route' n" and b: "best = calculate_route_distance nodes route' n"
    using conjunct1 [OF lp] conjunct1 [OF conjunct2 [OF lp]] by simp_all
  have "\<exists>nrp. length nrp = n \<and>
        search_view (two_opt_pass nodes n 1 (route', nrp, best, False)) = (route', best, False)"
    using conjunct2 [OF conjunct2 [OF lp]] by (simp only: simp_thms zero_less_numeral if_True)
  then obtain nrp where nrp: "length nrp = n"
    and view: "search_view (two_opt_pass nodes n 1 (route', nrp, best, False))
                 = (route', best, False)"
    by blast
  have "search_view (two_opt_pass nodes n 1 (route', nr', best, False)) = (route', best, False)"
    using two_opt_pass_buffer [OF t assms(3) nrp, of nodes 1 best False] view
    by simp
  then obtain nr'' where pass:
    "two_opt_pass nodes n 1 (route', nr', best, False) = (route', nr'', best, False)"
    by (cases "two_opt_pass nodes n 1 (route', nr', best, False)") (simp add: search_view_def)
  have "two_opt_search nodes n 0 (route', nr', best, True) =
        two_opt_search nodes n 1 (route', nr'', best, False)"
    using pass by (subst two_opt_search.simps) simp
  also have "\<dots> = (best, 1, route', False)"
    by (subst two_opt_search.simps) simp
  finally show ?thesis unfolding b .
qed

lemma two_opt_search_flag:
  assumes "two_opt_search nodes n iteration (route, nr, best, imp) = (best', iteration', route', True)"
  shows "MAX_ITERATIONS_logistics \<le> iteration'"
  using assms
proof (induction nodes n iteration "(route, nr, best, imp)" arbitrary: route nr best imp
       rule: two_opt_search.induct)
  case (1 nodes n iteration route nr best imp)
  show ?case
  proof (cases "imp \<and> iteration < MAX_ITERATIONS_logistics")
    case False
    then have "two_opt_search nodes n iteration (route, nr, best, imp)
                 = (best, iteration, route, imp)"
      by (subst two_opt_search.simps) auto
    with "1.prems" False show ?thesis by auto
  next
    case True
    obtain r1 nr1 b1 imp1 where s1:
      "two_opt_pass nodes n 1 (route, nr, best, False) = (r1, nr1, b1, imp1)"
      by (cases "two_opt_pass nodes n 1 (route, nr, best, False)") auto
    have step: "two_opt_search nodes n iteration (route, nr, best, imp) =
                two_opt_search nodes n (iteration + 1) (r1, nr1, b1, imp1)"
      using True s1 by (subst two_opt_search.simps) simp
    show ?thesis
      by (rule "1.hyps" [OF True s1]) (use "1.prems" in \<open>simp only: step\<close>)
  qed
qed

lemma two_opt_fixed_point_below_pass_limit:
  assumes "is_tour route n" and "length nr = n" and "length nr' = n"
    and "two_opt_search nodes n 0 (route, nr, calculate_route_distance nodes route n, True)
           = (best, iteration, route', improved)"
    and "iteration < MAX_ITERATIONS_logistics"
  shows "two_opt_search nodes n 0 (route', nr', calculate_route_distance nodes route' n, True)
           = (best, 1, route', False)"
proof -
  have "\<not> improved"
    using two_opt_search_flag [of nodes n 0 route nr _ True best iteration route'] assms(4,5)
    by (cases improved) auto
  then show ?thesis
    using two_opt_fixed_point_when_converged [OF assms(1,2,3)] assms(4) by simp
qed

lemma example_fixed_point:
  "two_opt_search example_nodes 4 0 ([0, 2, 1, 3], replicate 4 0, 60, True)
     = (60, 1, [0, 2, 1, 3], False)"
  by (simp add: replicate4 two_opt_search.simps two_opt_pass.simps two_opt_inner.simps
        two_opt_swap_def copy_segment.simps reverse_segment.simps
        calculate_route_distance_def route_sum.simps calculate_distance_def Let_def
        example_nodes_def)

end
